theory Spec2Isabelle
  imports Complex_Main "HOL-Library.Multiset" "HOL-Library.Sublist"
begin

section \<open>Data model of the conversion queue (src/App.tsx)\<close>

text \<open>
  Modelled from the spec: the enum \<open>AppStatus\<close> is declared in \<open>types.ts\<close>, which is
  not among the sources. The four members below are the ones \<open>App.tsx\<close> uses and the
  ones the data model of the specification lists (Idle, Processing, Complete, Error).
\<close>

datatype AppStatus = IDLE | PROCESSING | COMPLETE | ERROR

text \<open>
  A browser \<open>File\<close>: its name, its MIME type and its bytes. \<open>file.size\<close> is the number
  of bytes. A \<open>Blob\<close> is its bytes, \<open>blob.size\<close> their number.
\<close>

type_synonym Blob = "nat list"

record File =
  name :: string
  ftype :: string
  content :: Blob

definition file_size :: "File \<Rightarrow> nat" where
  "file_size f = length (content f)"

definition blob_size :: "Blob \<Rightarrow> nat" where
  "blob_size b = length b"

text \<open>
  Modelled from the spec: the interfaces \<open>ProcessedResult\<close>, \<open>QueueItem\<close> and
  \<open>ConversionSettings\<close> are declared in \<open>types.ts\<close>, which is not among the sources.
  The fields are the ones \<open>App.tsx\<close> reads and writes; \<open>result\<close> and \<open>error\<close> are the
  optional ones (absent is \<open>None\<close>). The fields \<open>id\<close>, \<open>file\<close> and \<open>size\<close> are written
  \<open>item_id\<close>, \<open>item_file\<close> and \<open>result_size\<close>.
\<close>

record ProcessedResult =
  blob :: Blob
  url :: string
  result_size :: nat
  aiDescription :: string
  aiTags :: "string list"

record QueueItem =
  item_id :: string
  item_file :: File
  previewUrl :: string
  originalSize :: nat
  status :: AppStatus
  result :: "ProcessedResult option"
  error :: "string option"

record ConversionSettings =
  format :: string
  quality :: real
  resizeRatio :: real
  useAIAnalysis :: bool
  isVector :: bool
  colorCount :: int

text \<open>The answer of \<open>analyzeImage\<close>: a description and tags.\<close>

record Analysis =
  description :: string
  tags :: "string list"

text \<open>
  The state of the component. \<open>queue\<close> is the React state. The other three fields make the
  effects on the browser explicit: how many object URLs \<open>URL.createObjectURL\<close> has handed
  out, the arguments of every \<open>URL.revokeObjectURL\<close> call in order, and how many times
  \<open>generateId\<close> has drawn from \<open>Math.random\<close>.
\<close>

record App =
  queue :: "QueueItem list"
  urls_created :: nat
  urls_revoked :: "string list"
  ids_generated :: nat

definition initial_App :: App where
  "initial_App = \<lparr>queue = [], urls_created = 0, urls_revoked = [], ids_generated = 0\<rparr>"

subsection \<open>Browser primitives\<close>

text \<open>
  \<open>URL.createObjectURL\<close> returns a new, non-empty URL of the form \<open>blob:...\<close> at every
  call. The n-th URL is modelled as \<open>blob:\<close> followed by n marks.
\<close>

definition object_url :: "nat \<Rightarrow> string" where
  "object_url n = ''blob:'' @ replicate n (CHR ''u'')"

definition createObjectURL :: "App \<Rightarrow> string \<times> App" where
  "createObjectURL s = (object_url (urls_created s), s\<lparr>urls_created := Suc (urls_created s)\<rparr>)"

definition revokeObjectURL :: "string \<Rightarrow> App \<Rightarrow> App" where
  "revokeObjectURL u s = s\<lparr>urls_revoked := urls_revoked s @ [u]\<rparr>"

text \<open>
  \<open>generateId\<close> is \<open>Math.random().toString(36).substr(2, 9)\<close>. The random source is the
  parameter \<open>gen\<close>: \<open>gen n\<close> is the string the n-th call returns.
\<close>

definition generateId :: "(nat \<Rightarrow> string) \<Rightarrow> App \<Rightarrow> string \<times> App" where
  "generateId gen s = (gen (ids_generated s), s\<lparr>ids_generated := Suc (ids_generated s)\<rparr>)"

text \<open>\<open>str.startsWith(p)\<close> and \<open>str.split(c)\<close> for a one-character separator.\<close>

definition startsWith :: "string \<Rightarrow> string \<Rightarrow> bool" where
  "startsWith str p = (take (length p) str = p)"

fun split :: "char \<Rightarrow> string \<Rightarrow> string list" where
  "split c [] = [[]]"
| "split c (x # xs) =
     (if x = c then [] # split c xs
      else (case split c xs of [] \<Rightarrow> [[x]] | w # ws \<Rightarrow> (x # w) # ws))"

text \<open>Indexing an array: out of range is \<open>undefined\<close>, here \<open>None\<close>.\<close>

definition at_index :: "'a list \<Rightarrow> nat \<Rightarrow> 'a option" where
  "at_index xs i = (if i < length xs then Some (xs ! i) else None)"

text \<open>A value inside a template literal: \<open>undefined\<close> prints as the word.\<close>

definition template_str :: "string option \<Rightarrow> string" where
  "template_str v = (case v of None \<Rightarrow> ''undefined'' | Some s \<Rightarrow> s)"

section \<open>Intake: handleFiles\<close>

text \<open>
  \<open>handleFiles\<close> returns at once on \<open>null\<close>. Otherwise it keeps the files whose type starts
  with \<open>image/\<close> and maps each to a new item: an id, then a preview URL, in that order, per
  file. The new items are appended to the queue.
\<close>

fun new_items :: "(nat \<Rightarrow> string) \<Rightarrow> File list \<Rightarrow> App \<Rightarrow> QueueItem list \<times> App" where
  "new_items gen [] s = ([], s)"
| "new_items gen (f # fs) s =
     (let (i, s1) = generateId gen s;
          (u, s2) = createObjectURL s1;
          item = \<lparr>item_id = i, item_file = f, previewUrl = u, originalSize = file_size f,
                  status = IDLE, result = None, error = None\<rparr>;
          (items, s3) = new_items gen fs s2
      in (item # items, s3))"

definition handleFiles :: "(nat \<Rightarrow> string) \<Rightarrow> File list option \<Rightarrow> App \<Rightarrow> App" where
  "handleFiles gen files s =
     (case files of
        None \<Rightarrow> s
      | Some fs \<Rightarrow>
          (let (newItems, s1) = new_items gen (filter (\<lambda>f. startsWith (ftype f) ''image/'') fs) s
           in s1\<lparr>queue := queue s1 @ newItems\<rparr>))"

section \<open>Removal: removeItem and clearQueue\<close>

text \<open>
  \<open>removeItem\<close> looks up the first item with the id, revokes its preview URL and the URL of
  its result when they are present and non-empty, and keeps the items with another id.
\<close>

definition revoke_item :: "QueueItem \<Rightarrow> App \<Rightarrow> App" where
  "revoke_item item s =
     (let s1 = (if previewUrl item \<noteq> [] then revokeObjectURL (previewUrl item) s else s)
      in (case result item of
            None \<Rightarrow> s1
          | Some r \<Rightarrow> if url r \<noteq> [] then revokeObjectURL (url r) s1 else s1))"

definition removeItem :: "string \<Rightarrow> App \<Rightarrow> App" where
  "removeItem i s =
     (let s1 = (case find (\<lambda>it. item_id it = i) (queue s) of
                  None \<Rightarrow> s
                | Some item \<Rightarrow> revoke_item item s)
      in s1\<lparr>queue := filter (\<lambda>it. item_id it \<noteq> i) (queue s1)\<rparr>)"

definition clearQueue :: "App \<Rightarrow> App" where
  "clearQueue s = (fold revoke_item (queue s) s)\<lparr>queue := []\<rparr>"

section \<open>The batch run: processBatch\<close>

text \<open>
  The three services are parameters: \<open>conv\<close> is \<open>processImageClientSide\<close>, \<open>b64\<close> is
  \<open>blobToBase64\<close> and \<open>ai\<close> is \<open>analyzeImage\<close>. A rejected promise is \<open>None\<close>.
\<close>

type_synonym Converter = "File \<Rightarrow> string \<Rightarrow> real \<Rightarrow> real \<Rightarrow> bool \<Rightarrow> int \<Rightarrow> Blob option"
type_synonym Encoder = "File \<Rightarrow> string option"
type_synonym Analyzer = "string \<Rightarrow> string \<Rightarrow> Analysis option"

definition pending :: "QueueItem \<Rightarrow> bool" where
  "pending item = (status item = IDLE \<or> status item = ERROR)"

definition itemsToProcess :: "QueueItem list \<Rightarrow> QueueItem list" where
  "itemsToProcess q = filter pending q"

text \<open>The three state updates of \<open>processBatch\<close>, each a function of the previous queue.\<close>

definition markProcessing :: "QueueItem list \<Rightarrow> QueueItem list \<Rightarrow> QueueItem list" where
  "markProcessing sel prev =
     map (\<lambda>item. if find (\<lambda>i. item_id i = item_id item) sel \<noteq> None
                 then item\<lparr>status := PROCESSING\<rparr> else item) prev"

definition markComplete :: "QueueItem \<Rightarrow> ProcessedResult \<Rightarrow> QueueItem list \<Rightarrow> QueueItem list" where
  "markComplete item r prev =
     map (\<lambda>i. if item_id i = item_id item then i\<lparr>status := COMPLETE, result := Some r\<rparr> else i) prev"

definition markError :: "QueueItem \<Rightarrow> QueueItem list \<Rightarrow> QueueItem list" where
  "markError item prev =
     map (\<lambda>i. if item_id i = item_id item then i\<lparr>status := ERROR, error := Some ''Failed''\<rparr> else i) prev"

text \<open>
  The annotation of one item: empty unless \<open>useAIAnalysis\<close> is set and both calls succeed;
  a failure of either is caught and only logged.
\<close>

definition annotate :: "Encoder \<Rightarrow> Analyzer \<Rightarrow> ConversionSettings \<Rightarrow> QueueItem \<Rightarrow> string \<times> string list" where
  "annotate b64 ai settings item =
     (if useAIAnalysis settings then
        (case b64 (item_file item) of
           None \<Rightarrow> ([], [])
         | Some base64Original \<Rightarrow>
             (case ai base64Original (ftype (item_file item)) of
                None \<Rightarrow> ([], [])
              | Some analysis \<Rightarrow> (description analysis, tags analysis)))
      else ([], []))"

text \<open>The call of \<open>processImageClientSide\<close> for one item, with its six arguments.\<close>

definition convert :: "Converter \<Rightarrow> ConversionSettings \<Rightarrow> QueueItem \<Rightarrow> Blob option" where
  "convert conv settings item =
     conv (item_file item) (format settings) (quality settings) (resizeRatio settings)
       (isVector settings) (colorCount settings)"

text \<open>One turn of the loop: the body of the outer \<open>try\<close> and its \<open>catch\<close>.\<close>

definition process_item ::
  "Converter \<Rightarrow> Encoder \<Rightarrow> Analyzer \<Rightarrow> ConversionSettings \<Rightarrow> QueueItem \<Rightarrow> App \<Rightarrow> App" where
  "process_item conv b64 ai settings item s =
     (case convert conv settings item of
        None \<Rightarrow> s\<lparr>queue := markError item (queue s)\<rparr>
      | Some b \<Rightarrow>
          (let (u, s1) = createObjectURL s;
               (aiDesc, aiTgs) = annotate b64 ai settings item;
               r = \<lparr>blob = b, url = u, result_size = blob_size b,
                    aiDescription = aiDesc, aiTags = aiTgs\<rparr>
           in s1\<lparr>queue := markComplete item r (queue s1)\<rparr>))"

definition processBatch ::
  "Converter \<Rightarrow> Encoder \<Rightarrow> Analyzer \<Rightarrow> ConversionSettings \<Rightarrow> App \<Rightarrow> App" where
  "processBatch conv b64 ai settings s =
     (let sel = itemsToProcess (queue s)
      in if sel = [] then s
         else fold (process_item conv b64 ai settings) sel
                (s\<lparr>queue := markProcessing sel (queue s)\<rparr>))"

text \<open>
  The successive states of a run, one per state update: the state after the marking, then
  the state after each turn of the loop.
\<close>

fun loop_trace ::
  "Converter \<Rightarrow> Encoder \<Rightarrow> Analyzer \<Rightarrow> ConversionSettings \<Rightarrow> QueueItem list \<Rightarrow> App \<Rightarrow> App list" where
  "loop_trace conv b64 ai settings [] s = []"
| "loop_trace conv b64 ai settings (item # items) s =
     (let s1 = process_item conv b64 ai settings item s
      in s1 # loop_trace conv b64 ai settings items s1)"

definition processBatch_trace ::
  "Converter \<Rightarrow> Encoder \<Rightarrow> Analyzer \<Rightarrow> ConversionSettings \<Rightarrow> App \<Rightarrow> App list" where
  "processBatch_trace conv b64 ai settings s =
     (let sel = itemsToProcess (queue s)
      in if sel = [] then []
         else (let s0 = s\<lparr>queue := markProcessing sel (queue s)\<rparr>
               in s0 # loop_trace conv b64 ai settings sel s0))"



section \<open>Sequences of user actions\<close>

text \<open>
  \<open>processBatch\<close> is asynchronous: the click computes the selection and issues the marking,
  and each turn of the loop then waits for the conversion of its item. While it waits the
  component stays usable: files can be dropped, items removed, the queue cleared, and a
  further run started. A batch run that is under way is recorded with the services it was
  started with and the items of its snapshot whose turn is still to come.
\<close>

record Run =
  run_conv :: Converter
  run_b64 :: Encoder
  run_ai :: Analyzer
  run_settings :: ConversionSettings
  remaining :: "QueueItem list"

text \<open>
  The events of a session. \<open>ProcessBatch\<close> is the click: the snapshot, the early return on
  an empty selection, and the marking. \<open>Resume n\<close> is the run started n-th getting the
  answer it awaits and finishing that turn of its loop (the URL of the output, the
  annotation, the state update of the item). The state updates of the code are functions of
  the previous queue, so a turn acts on the queue as it is when the turn ends; an action
  that falls into the annotation call of a turn acts on the queue as one just before the
  turn does. The button that starts a run is disabled while an item is Processing; the
  model does not rely on that and lets a run start at any time.
\<close>

datatype Event =
    HandleFiles "File list option"
  | RemoveItem string
  | ClearQueue
  | ProcessBatch Converter Encoder Analyzer ConversionSettings
  | Resume nat

fun step :: "(nat \<Rightarrow> string) \<Rightarrow> Event \<Rightarrow> App \<times> Run list \<Rightarrow> App \<times> Run list" where
  "step gen (HandleFiles files) (s, rs) = (handleFiles gen files s, rs)"
| "step gen (RemoveItem i) (s, rs) = (removeItem i s, rs)"
| "step gen ClearQueue (s, rs) = (clearQueue s, rs)"
| "step gen (ProcessBatch conv b64 ai settings) (s, rs) =
     (let sel = itemsToProcess (queue s)
      in if sel = [] then (s, rs)
         else (s\<lparr>queue := markProcessing sel (queue s)\<rparr>,
               rs @ [\<lparr>run_conv = conv, run_b64 = b64, run_ai = ai, run_settings = settings,
                      remaining = sel\<rparr>]))"
| "step gen (Resume n) (s, rs) =
     (if n < length rs then
        (case remaining (rs ! n) of
           [] \<Rightarrow> (s, rs)
         | item # items \<Rightarrow>
             (process_item (run_conv (rs ! n)) (run_b64 (rs ! n)) (run_ai (rs ! n))
                (run_settings (rs ! n)) item s,
              rs[n := (rs ! n)\<lparr>remaining := items\<rparr>]))
      else (s, rs))"

definition run :: "(nat \<Rightarrow> string) \<Rightarrow> Event list \<Rightarrow> App \<times> Run list" where
  "run gen evs = fold (step gen) evs (initial_App, [])"

section \<open>Download: getExtension, downloadFile, downloadAll\<close>

definition getExtension :: "ConversionSettings \<Rightarrow> string option" where
  "getExtension settings =
     (let ext = at_index (split (CHR ''/'') (format settings)) 1
      in if ext = Some ''svg+xml'' then Some ''svg'' else ext)"

definition download_name :: "QueueItem \<Rightarrow> string option \<Rightarrow> string" where
  "download_name item ext =
     template_str (at_index (split (CHR ''.'') (name (item_file item))) 0)
       @ ''_converted.'' @ template_str ext"


text \<open>
  The archive under construction is the object of JSZip, a library outside this repository:
  named entries, in the order the names were first added; \<open>zip.file\<close> of a name that is
  there replaces its data in place. Entry names are taken as flat names: a browser gives
  \<open>file.name\<close> without a path, so the folder entries JSZip adds for a name with a slash
  do not arise.
\<close>

fun zip_file :: "string \<Rightarrow> Blob \<Rightarrow> (string \<times> Blob) list \<Rightarrow> (string \<times> Blob) list" where
  "zip_file n b [] = [(n, b)]"
| "zip_file n b ((m, c) # es) = (if m = n then (n, b) # es else (m, c) # zip_file n b es)"

definition completedItems :: "QueueItem list \<Rightarrow> QueueItem list" where
  "completedItems q = filter (\<lambda>item. status item = COMPLETE \<and> result item \<noteq> None) q"

definition add_entry :: "string option \<Rightarrow> QueueItem \<Rightarrow> (string \<times> Blob) list \<Rightarrow> (string \<times> Blob) list" where
  "add_entry ext item z =
     (case result item of
        None \<Rightarrow> z
      | Some r \<Rightarrow> zip_file (download_name item ext) (blob r) z)"

text \<open>
  \<open>downloadAll\<close> does nothing when no item is complete; otherwise it hands the entries
  returned here to \<open>generateAsync\<close> and offers the archive under the name returned here.
  A failure of \<open>generateAsync\<close> is caught and logged, and nothing is offered; the model
  describes the run in which the archive is generated.
\<close>

definition downloadAll :: "ConversionSettings \<Rightarrow> QueueItem list \<Rightarrow> (string \<times> (string \<times> Blob) list) option" where
  "downloadAll settings q =
     (let done = completedItems q
      in if done = [] then None
         else Some (''cleave_batch.zip'', fold (add_entry (getExtension settings)) done []))"

section \<open>Reference definitions and example inputs\<close>

text \<open>
  What the archive is expected to hold, in the words of the specification: one entry per
  completed result, named by the per-item rule, with the bytes of the result.
\<close>

definition expected_entries :: "string option \<Rightarrow> QueueItem list \<Rightarrow> (string \<times> Blob) list" where
  "expected_entries ext items =
     concat (map (\<lambda>i. case result i of None \<Rightarrow> [] | Some r \<Rightarrow> [(download_name i ext, blob r)]) items)"

text \<open>
  What one turn of the loop makes of the queued item it addresses: \<open>cur\<close> is the item as
  it stands in the queue, \<open>item\<close> the item of the snapshot, \<open>u\<close> the URL of the output.
\<close>

definition outcome ::
  "Converter \<Rightarrow> Encoder \<Rightarrow> Analyzer \<Rightarrow> ConversionSettings \<Rightarrow> QueueItem \<Rightarrow> string \<Rightarrow> QueueItem \<Rightarrow> QueueItem" where
  "outcome conv b64 ai settings item u cur =
     (case convert conv settings item of
        None \<Rightarrow> cur\<lparr>status := ERROR, error := Some ''Failed''\<rparr>
      | Some b \<Rightarrow>
          cur\<lparr>status := COMPLETE,
              result := Some \<lparr>blob = b, url = u, result_size = blob_size b,
                               aiDescription = fst (annotate b64 ai settings item),
                               aiTags = snd (annotate b64 ai settings item)\<rparr>\<rparr>)"

text \<open>
  The object URLs an item owns (its preview and, when it has a result, its output), and the
  URLs owned by the items of a queue.
\<close>

definition handles :: "QueueItem \<Rightarrow> string list" where
  "handles item = previewUrl item # (case result item of None \<Rightarrow> [] | Some r \<Rightarrow> [url r])"

definition owned :: "QueueItem list \<Rightarrow> string list" where
  "owned q = concat (map handles q)"

text \<open>The ids of a state are pairwise different and were all drawn from the generator.\<close>

definition ids_ok :: "(nat \<Rightarrow> string) \<Rightarrow> App \<Rightarrow> bool" where
  "ids_ok gen s =
     (distinct (map item_id (queue s)) \<and> item_id ` set (queue s) \<subseteq> gen ` {..<ids_generated s})"

text \<open>Every URL created so far is either revoked, once, or owned, once, by a queued item.\<close>

definition accounted :: "App \<Rightarrow> bool" where
  "accounted s =
     (mset (urls_revoked s) + mset (owned (queue s)) = mset (map object_url [0..<urls_created s]))"

text \<open>
  The relation between the status of an item and its optional fields that the code keeps:
  a result exactly when Complete; the message \<open>Failed\<close> when Error; no message when Idle;
  and never another message than \<open>Failed\<close>.
\<close>

definition item_ok :: "QueueItem \<Rightarrow> bool" where
  "item_ok i =
     ((result i \<noteq> None) = (status i = COMPLETE) \<and>
      (status i = ERROR \<longrightarrow> error i = Some ''Failed'') \<and>
      (status i = IDLE \<longrightarrow> error i = None) \<and>
      (error i = None \<or> error i = Some ''Failed''))"

text \<open>An item as \<open>handleFiles\<close> creates it.\<close>

definition fresh :: "QueueItem \<Rightarrow> bool" where
  "fresh i = (status i = IDLE \<and> result i = None \<and> error i = None)"

text \<open>Concrete inputs, used to run the definitions.\<close>

definition ex_settings :: ConversionSettings where
  "ex_settings = \<lparr>format = ''image/jpeg'', quality = 4 / 5, resizeRatio = 1,
                   useAIAnalysis = True, isVector = False, colorCount = 16\<rparr>"

definition ex_file :: "string \<Rightarrow> Blob \<Rightarrow> File" where
  "ex_file n b = \<lparr>name = n, ftype = ''image/png'', content = b\<rparr>"

definition ex_item :: "string \<Rightarrow> File \<Rightarrow> string \<Rightarrow> AppStatus \<Rightarrow> ProcessedResult option \<Rightarrow> QueueItem" where
  "ex_item i f u st r = \<lparr>item_id = i, item_file = f, previewUrl = u, originalSize = file_size f,
                  status = st, result = r, error = None\<rparr>"

definition ex_result :: "Blob \<Rightarrow> string \<Rightarrow> ProcessedResult" where
  "ex_result b u = \<lparr>blob = b, url = u, result_size = blob_size b, aiDescription = [], aiTags = []\<rparr>"

definition ex_done :: "string \<Rightarrow> string \<Rightarrow> Blob \<Rightarrow> QueueItem" where
  "ex_done i n b = ex_item i (ex_file n [1, 2, 3]) ''blob:'' COMPLETE (Some (ex_result b ''blob:u''))"

text \<open>
  Example services: the converter rejects a file with no bytes and otherwise returns the
  bytes of the file; the encoder succeeds; the annotation call fails.
\<close>

definition ex_conv :: Converter where
  "ex_conv f fmt q r v c = (if content f = [] then None else Some (content f))"

definition ex_b64 :: Encoder where
  "ex_b64 f = Some ''base64''"

definition ex_ai :: Analyzer where
  "ex_ai d t = None"

text \<open>A converter that accepts every file.\<close>

definition ex_conv_ok :: Converter where
  "ex_conv_ok f fmt q r v c = Some [0]"

definition ex_gen :: "nat \<Rightarrow> string" where
  "ex_gen n = replicate (Suc n) (CHR ''a'')"

text \<open>An example state: four files are dropped on the empty queue, three of them images.\<close>

definition ex_app :: App where
  "ex_app = handleFiles ex_gen
     (Some [ex_file ''a.png'' [1], \<lparr>name = ''notes.txt'', ftype = ''text/plain'', content = [5]\<rparr>,
            ex_file ''b.png'' [], ex_file ''c.png'' [2, 3]]) initial_App"

text \<open>The example state after a first run, and a file dropped during the first turn of a later run.\<close>

definition ex_app2 :: App where
  "ex_app2 = processBatch ex_conv ex_b64 ex_ai ex_settings ex_app"




text \<open>
  Example sessions. In the first a file is dropped, its conversion fails, a second run is
  started with a converter that accepts it, and that run finishes. In the second a file is
  dropped, a run is started, the item is removed while its conversion is awaited, the
  conversion succeeds, and the queue is cleared.
\<close>

definition ex_failed :: "Event list" where
  "ex_failed = [HandleFiles (Some [ex_file ''b.png'' []]),
                ProcessBatch ex_conv ex_b64 ex_ai ex_settings,
                Resume 0]"

definition ex_retrying :: "Event list" where
  "ex_retrying = ex_failed @ [ProcessBatch ex_conv_ok ex_b64 ex_ai ex_settings]"

definition ex_retry :: "Event list" where
  "ex_retry = ex_retrying @ [Resume 1]"

definition ex_removed_during_run :: "Event list" where
  "ex_removed_during_run =
     [HandleFiles (Some [ex_file ''a.png'' [1]]),
      ProcessBatch ex_conv ex_b64 ex_ai ex_settings,
      RemoveItem ''a'',
      Resume 0,
      ClearQueue]"

section \<open>Properties of the intake\<close>

lemma new_items_queue: "queue (snd (new_items gen fs s)) = queue s"
  by (induction fs arbitrary: s)
     (simp_all add: generateId_def createObjectURL_def split_def Let_def)

lemma new_items_files: "map item_file (fst (new_items gen fs s)) = fs"
  by (induction fs arbitrary: s)
     (simp_all add: generateId_def createObjectURL_def split_def Let_def)

lemma new_items_fresh:
  "list_all (\<lambda>i. status i = IDLE \<and> result i = None \<and> error i = None) (fst (new_items gen fs s))"
  by (induction fs arbitrary: s)
     (simp_all add: generateId_def createObjectURL_def split_def Let_def)

lemma handleFiles_queue:
  "queue (handleFiles gen (Some fs) s) =
     queue s @ fst (new_items gen (filter (\<lambda>f. startsWith (ftype f) ''image/'') fs) s)"
  by (simp add: handleFiles_def split_def Let_def new_items_queue)

text \<open>
  Claim C9. Intake keeps the old queue as a prefix and appends one item per input file
  whose type starts with \<open>image/\<close>, in input order; every appended item is Idle with no
  result and no error. The other files leave no trace, and \<open>null\<close> changes nothing.
  \<open>handleFiles\<close> has no failing branch: it is a total function of its input.
\<close>

theorem handleFiles_intake:
  "handleFiles gen None s = s \<and>
   take (length (queue s)) (queue (handleFiles gen (Some fs) s)) = queue s \<and>
   map item_file (drop (length (queue s)) (queue (handleFiles gen (Some fs) s)))
     = filter (\<lambda>f. startsWith (ftype f) ''image/'') fs \<and>
   list_all (\<lambda>i. status i = IDLE \<and> result i = None \<and> error i = None)
     (drop (length (queue s)) (queue (handleFiles gen (Some fs) s)))"
  by (simp add: handleFiles_queue new_items_files new_items_fresh) (simp add: handleFiles_def)

section \<open>Properties of the selection\<close>

lemma itemsToProcess_subseq: "subseq (itemsToProcess q) q"
  by (simp add: itemsToProcess_def)

section \<open>Properties of the download names and of the archive\<close>

lemma split_not_Nil: "split c s \<noteq> []"
  by (induction s) (auto split: list.splits)

lemma hd_split: "hd (split c s) = takeWhile (\<lambda>x. x \<noteq> c) s"
  by (induction s) (auto split: list.splits simp: split_not_Nil)

lemma at_index_split_0: "at_index (split c s) 0 = Some (takeWhile (\<lambda>x. x \<noteq> c) s)"
  using split_not_Nil[of c s] hd_split[of c s]
  by (cases "split c s") (simp_all add: at_index_def)

lemma download_name_eq:
  "download_name item ext =
     takeWhile (\<lambda>x. x \<noteq> CHR ''.'') (name (item_file item)) @ ''_converted.'' @ template_str ext"
  by (simp add: download_name_def at_index_split_0 template_str_def)


lemma zip_file_names: "fst ` set (zip_file n b z) = insert n (fst ` set z)"
proof (induction z)
  case Nil
  show ?case by simp
next
  case (Cons e z)
  obtain m c where e: "e = (m, c)" by (cases e)
  show ?case using Cons unfolding e by (cases "m = n") (simp_all add: insert_commute)
qed

lemma zip_file_fresh: "n \<notin> fst ` set z \<Longrightarrow> zip_file n b z = z @ [(n, b)]"
  by (induction z) auto

lemma zip_file_distinct: "distinct (map fst z) \<Longrightarrow> distinct (map fst (zip_file n b z))"
  by (induction z) (auto simp: zip_file_names)

lemma zip_file_map_of: "map_of (zip_file n b z) = (map_of z)(n \<mapsto> b)"
  by (induction z) auto


lemma fold_add_entry_distinct:
  "distinct (map fst z) \<Longrightarrow> distinct (map fst (fold (add_entry ext) items z))"
  by (induction items arbitrary: z)
     (auto simp: add_entry_def zip_file_distinct split: option.splits)

lemma fold_add_entry_map_of:
  "map_of (fold (add_entry ext) items z) = map_of (rev (expected_entries ext items) @ z)"
proof (induction items arbitrary: z)
  case Nil
  then show ?case by (simp add: expected_entries_def)
next
  case (Cons i items)
  show ?case
  proof (cases "result i")
    case None
    then show ?thesis using Cons[of z] by (simp add: add_entry_def expected_entries_def)
  next
    case (Some r)
    then show ?thesis
      using Cons[of "zip_file (download_name i ext) (blob r) z"]
      by (simp add: add_entry_def expected_entries_def zip_file_map_of map_add_def fun_eq_iff
               split: option.splits)
  qed
qed

lemma fold_add_entry_exact:
  "distinct (map fst (expected_entries ext items)) \<Longrightarrow>
   fst ` set z \<inter> fst ` set (expected_entries ext items) = {} \<Longrightarrow>
   fold (add_entry ext) items z = z @ expected_entries ext items"
proof (induction items arbitrary: z)
  case Nil
  then show ?case by (simp add: expected_entries_def)
next
  case (Cons i items)
  show ?case
  proof (cases "result i")
    case None
    then show ?thesis using Cons.IH[of z] Cons.prems
      by (simp add: add_entry_def expected_entries_def)
  next
    case (Some r)
    let ?n = "download_name i ext"
    have ee: "expected_entries ext (i # items) = (?n, blob r) # expected_entries ext items"
      using Some by (simp add: expected_entries_def)
    have fresh: "?n \<notin> fst ` set z" using Cons.prems(2) ee by auto
    have d: "distinct (map fst (expected_entries ext items))"
      and nin: "?n \<notin> fst ` set (expected_entries ext items)"
      using Cons.prems(1) ee by auto
    have disj: "fst ` set (z @ [(?n, blob r)]) \<inter> fst ` set (expected_entries ext items) = {}"
      using Cons.prems(2) ee nin by auto
    have "fold (add_entry ext) (i # items) z = fold (add_entry ext) items (z @ [(?n, blob r)])"
      using Some fresh by (simp add: add_entry_def zip_file_fresh)
    also have "\<dots> = (z @ [(?n, blob r)]) @ expected_entries ext items"
      by (rule Cons.IH[OF d disj])
    finally show ?thesis using ee by simp
  qed
qed

lemma expected_entries_completed:
  "map fst (expected_entries ext (completedItems q)) = map (\<lambda>i. download_name i ext) (completedItems q)"
  unfolding expected_entries_def completedItems_def
  by (induction q) auto




text \<open>
  Claim C8. When the completed items have pairwise different entry names, the archive holds
  exactly one entry per completed item, in order, with the name of the item and the bytes of
  its result. In every case the entry names of the archive are pairwise different and each
  name maps to the bytes of the last completed item with that name.
\<close>

theorem archive_contents:
  "(completedItems q \<noteq> [] \<and>
    distinct (map (\<lambda>i. download_name i (getExtension settings)) (completedItems q)) \<longrightarrow>
      downloadAll settings q =
        Some (''cleave_batch.zip'', expected_entries (getExtension settings) (completedItems q))) \<and>
   length (expected_entries (getExtension settings) (completedItems q)) = length (completedItems q) \<and>
   (\<forall>n es. downloadAll settings q = Some (n, es) \<longrightarrow>
      distinct (map fst es) \<and>
      map_of es = map_of (rev (expected_entries (getExtension settings) (completedItems q))))"
proof -
  let ?ext = "getExtension settings"
  have len: "length (expected_entries ?ext (completedItems q)) = length (completedItems q)"
    using arg_cong[OF expected_entries_completed[of ?ext q], of length] by simp
  have exact: "completedItems q \<noteq> [] \<and>
    distinct (map (\<lambda>i. download_name i ?ext) (completedItems q)) \<longrightarrow>
      downloadAll settings q = Some (''cleave_batch.zip'', expected_entries ?ext (completedItems q))"
    using fold_add_entry_exact[of ?ext "completedItems q" "[]"]
    by (simp add: downloadAll_def Let_def expected_entries_completed)
  have coll: "\<forall>n es. downloadAll settings q = Some (n, es) \<longrightarrow>
      distinct (map fst es) \<and> map_of es = map_of (rev (expected_entries ?ext (completedItems q)))"
    using fold_add_entry_distinct[of "[]" ?ext "completedItems q"]
          fold_add_entry_map_of[of ?ext "completedItems q" "[]"]
    by (auto simp: downloadAll_def Let_def split: if_splits)
  from exact len coll show ?thesis by blast
qed

theorem archive_contents_witness:
  "downloadAll ex_settings [ex_done ''a'' ''x.png'' [7], ex_item ''b'' (ex_file ''z.png'' []) ''blob:'' ERROR None,
      ex_done ''c'' ''y.png'' [8, 9]]
     = Some (''cleave_batch.zip'', [(''x_converted.jpeg'', [7]), (''y_converted.jpeg'', [8, 9])]) \<and>
   downloadAll ex_settings [ex_done ''a'' ''x.png'' [7], ex_done ''c'' ''x.gif'' [8, 9]]
     = Some (''cleave_batch.zip'', [(''x_converted.jpeg'', [8, 9])])"
proof -
  let ?q = "[ex_done ''a'' ''x.png'' [7], ex_item ''b'' (ex_file ''z.png'' []) ''blob:'' ERROR None,
      ex_done ''c'' ''y.png'' [8, 9]]"
  have e: "getExtension ex_settings = Some ''jpeg''"
    by (simp add: getExtension_def at_index_def ex_settings_def)
  have c: "completedItems ?q = [ex_done ''a'' ''x.png'' [7], ex_done ''c'' ''y.png'' [8, 9]]"
    by (simp add: completedItems_def ex_done_def ex_item_def)
  have n: "download_name (ex_done i nm b) (Some ''jpeg'') = takeWhile (\<lambda>x. x \<noteq> CHR ''.'') nm @ ''_converted.jpeg''"
    for i nm b
    by (simp add: download_name_eq template_str_def ex_done_def ex_item_def ex_file_def)
  have r: "result (ex_done i nm b) = Some (ex_result b ''blob:u'')" for i nm b
    by (simp add: ex_done_def ex_item_def)
  have st: "status (ex_done i nm b) = COMPLETE" for i nm b
    by (simp add: ex_done_def ex_item_def)
  have bl: "blob (ex_result b u) = b" for b u
    by (simp add: ex_result_def)
  have x: "expected_entries (Some ''jpeg'') [ex_done ''a'' ''x.png'' [7], ex_done ''c'' ''y.png'' [8, 9]]
     = [(''x_converted.jpeg'', [7]), (''y_converted.jpeg'', [8, 9])]"
    by (simp add: expected_entries_def n r bl)
  have first: "downloadAll ex_settings ?q
     = Some (''cleave_batch.zip'', [(''x_converted.jpeg'', [7]), (''y_converted.jpeg'', [8, 9])])"
    using archive_contents[of ?q ex_settings] by (simp add: c e n x)
  have second: "downloadAll ex_settings [ex_done ''a'' ''x.png'' [7], ex_done ''c'' ''x.gif'' [8, 9]]
     = Some (''cleave_batch.zip'', [(''x_converted.jpeg'', [8, 9])])"
    by (simp add: downloadAll_def completedItems_def add_entry_def e n r st bl)
  from first second show ?thesis by simp
qed

section \<open>Properties of the batch run\<close>

lemma process_item_queue:
  "queue (process_item conv b64 ai settings it s) =
     map (\<lambda>i. if item_id i = item_id it
               then outcome conv b64 ai settings it (object_url (urls_created s)) i else i) (queue s)"
  by (cases "convert conv settings it")
     (simp_all add: process_item_def outcome_def markError_def markComplete_def
        createObjectURL_def split_def Let_def)

lemma outcome_id: "item_id (outcome conv b64 ai settings it u cur) = item_id cur"
  by (simp add: outcome_def split: option.splits)

lemma process_item_ids:
  "map item_id (queue (process_item conv b64 ai settings it s)) = map item_id (queue s)"
  by (simp add: process_item_queue outcome_id o_def cong: map_cong)

lemma fold_process_ids:
  "map item_id (queue (fold (process_item conv b64 ai settings) items s)) = map item_id (queue s)"
  by (induction items arbitrary: s) (simp_all add: process_item_ids)

lemma ids_length: "map item_id q' = map item_id q \<Longrightarrow> length q' = length q"
  by (rule map_eq_imp_length_eq)

lemma ids_nth: "map item_id q' = map item_id q \<Longrightarrow> k < length q \<Longrightarrow> item_id (q' ! k) = item_id (q ! k)"
  by (metis length_map nth_map)

lemma fold_process_other:
  "k < length (queue s) \<Longrightarrow> item_id (queue s ! k) \<notin> item_id ` set items \<Longrightarrow>
   queue (fold (process_item conv b64 ai settings) items s) ! k = queue s ! k"
proof (induction items arbitrary: s)
  case Nil
  then show ?case by simp
next
  case (Cons x xs)
  let ?s1 = "process_item conv b64 ai settings x s"
  have len: "length (queue ?s1) = length (queue s)"
    by (rule ids_length[OF process_item_ids])
  have same: "queue ?s1 ! k = queue s ! k"
    using Cons.prems by (simp add: process_item_queue)
  have "queue (fold (process_item conv b64 ai settings) xs ?s1) ! k = queue ?s1 ! k"
    using Cons.prems len same by (intro Cons.IH) auto
  then show ?case using same by simp
qed

lemma fold_process_same:
  "distinct (map item_id items) \<Longrightarrow> it \<in> set items \<Longrightarrow> k < length (queue s) \<Longrightarrow>
   item_id (queue s ! k) = item_id it \<Longrightarrow>
   \<exists>u. queue (fold (process_item conv b64 ai settings) items s) ! k
        = outcome conv b64 ai settings it u (queue s ! k)"
proof (induction items arbitrary: s)
  case Nil
  then show ?case by simp
next
  case (Cons x xs)
  let ?s1 = "process_item conv b64 ai settings x s"
  have len: "length (queue ?s1) = length (queue s)"
    by (rule ids_length[OF process_item_ids])
  show ?case
  proof (cases "x = it")
    case True
    have now: "queue ?s1 ! k = outcome conv b64 ai settings it (object_url (urls_created s)) (queue s ! k)"
      using Cons.prems True by (simp add: process_item_queue)
    have "item_id (queue ?s1 ! k) \<notin> item_id ` set xs"
      using Cons.prems(1,4) True now by (auto simp: outcome_id)
    then have "queue (fold (process_item conv b64 ai settings) xs ?s1) ! k = queue ?s1 ! k"
      using Cons.prems(3) len by (intro fold_process_other) auto
    then show ?thesis using now by auto
  next
    case False
    then have mem: "it \<in> set xs" using Cons.prems(2) by simp
    then have "item_id x \<noteq> item_id it" using Cons.prems(1) by auto
    then have same: "queue ?s1 ! k = queue s ! k"
      using Cons.prems by (simp add: process_item_queue)
    have "\<exists>u. queue (fold (process_item conv b64 ai settings) xs ?s1) ! k
        = outcome conv b64 ai settings it u (queue ?s1 ! k)"
      using Cons.prems mem len same by (intro Cons.IH) auto
    then show ?thesis using same by simp
  qed
qed

lemma same_id_same_item:
  "distinct (map item_id q) \<Longrightarrow> x \<in> set q \<Longrightarrow> y \<in> set q \<Longrightarrow> item_id x = item_id y \<Longrightarrow> x = y"
  by (meson distinct_map inj_on_def)

lemma find_None_ids: "(find (\<lambda>i. item_id i = a) sel = None) = (a \<notin> item_id ` set sel)"
  by (auto simp: find_None_iff)

lemma selected_iff_pending:
  "distinct (map item_id q) \<Longrightarrow> x \<in> set q \<Longrightarrow>
   (item_id x \<in> item_id ` set (itemsToProcess q)) = pending x"
  unfolding itemsToProcess_def
  using same_id_same_item[of q x] by auto

lemma markProcessing_nth:
  "distinct (map item_id q) \<Longrightarrow> k < length q \<Longrightarrow>
   markProcessing (itemsToProcess q) q ! k =
     (if pending (q ! k) then (q ! k)\<lparr>status := PROCESSING\<rparr> else q ! k)"
  by (simp add: markProcessing_def find_None_ids selected_iff_pending)

lemma markProcessing_ids: "map item_id (markProcessing sel q) = map item_id q"
  by (simp add: markProcessing_def o_def cong: map_cong)

lemma itemsToProcess_distinct:
  "distinct (map item_id q) \<Longrightarrow> distinct (map item_id (itemsToProcess q))"
  by (simp add: itemsToProcess_def distinct_map_filter)

lemma processBatch_ids:
  "map item_id (queue (processBatch conv b64 ai settings s)) = map item_id (queue s)"
  by (simp add: processBatch_def Let_def fold_process_ids markProcessing_ids)

lemma processBatch_nth:
  assumes d: "distinct (map item_id (queue s))" and k: "k < length (queue s)"
  shows "\<exists>u. queue (processBatch conv b64 ai settings s) ! k =
     (if pending (queue s ! k)
      then outcome conv b64 ai settings (queue s ! k) u ((queue s ! k)\<lparr>status := PROCESSING\<rparr>)
      else queue s ! k)"
proof -
  let ?q = "queue s"
  let ?sel = "itemsToProcess ?q"
  let ?s0 = "s\<lparr>queue := markProcessing ?sel ?q\<rparr>"
  have in_q: "?q ! k \<in> set ?q" using k by simp
  have k0: "k < length (queue ?s0)" using k by (simp add: markProcessing_def)
  have at0: "queue ?s0 ! k = (if pending (?q ! k) then (?q ! k)\<lparr>status := PROCESSING\<rparr> else ?q ! k)"
    using markProcessing_nth[OF d k] by simp
  show ?thesis
  proof (cases "pending (?q ! k)")
    case True
    then have mem: "?q ! k \<in> set ?sel" using in_q by (simp add: itemsToProcess_def)
    then have ne: "?sel \<noteq> []" by auto
    have "\<exists>u. queue (fold (process_item conv b64 ai settings) ?sel ?s0) ! k
        = outcome conv b64 ai settings (?q ! k) u (queue ?s0 ! k)"
      using itemsToProcess_distinct[OF d] mem k0 at0 True
      by (intro fold_process_same) auto
    then show ?thesis using True ne at0 by (simp add: processBatch_def Let_def)
  next
    case False
    then have "item_id (queue ?s0 ! k) \<notin> item_id ` set ?sel"
      using selected_iff_pending[OF d in_q] at0 by simp
    then have "queue (fold (process_item conv b64 ai settings) ?sel ?s0) ! k = queue ?s0 ! k"
      using k0 by (intro fold_process_other)
    then show ?thesis using False at0 by (simp add: processBatch_def Let_def)
  qed
qed

lemma outcome_status:
  "status (outcome conv b64 ai settings it u cur) =
     (if convert conv settings it = None then ERROR else COMPLETE)"
  by (simp add: outcome_def split: option.splits)

text \<open>
  Claim C1. In a queue with pairwise different ids, after a run an item is Error exactly when
  it was selected (Idle or Error) and its own conversion failed, and then it carries the
  message \<open>Failed\<close>; every selected item whose conversion succeeded is Complete with the
  converted bytes as its result, whatever happened to the other items. The run keeps the
  length of the queue.
\<close>

theorem failure_isolation:
  assumes "distinct (map item_id (queue s))" and "k < length (queue s)"
  shows "length (queue (processBatch conv b64 ai settings s)) = length (queue s) \<and>
    (status (queue (processBatch conv b64 ai settings s) ! k) = ERROR) =
       (pending (queue s ! k) \<and> convert conv settings (queue s ! k) = None) \<and>
    (pending (queue s ! k) \<and> convert conv settings (queue s ! k) = None \<longrightarrow>
       error (queue (processBatch conv b64 ai settings s) ! k) = Some ''Failed'') \<and>
    (\<forall>b. pending (queue s ! k) \<and> convert conv settings (queue s ! k) = Some b \<longrightarrow>
       status (queue (processBatch conv b64 ai settings s) ! k) = COMPLETE \<and>
       (\<exists>r. result (queue (processBatch conv b64 ai settings s) ! k) = Some r \<and> blob r = b))"
proof -
  let ?s' = "processBatch conv b64 ai settings s"
  have len: "length (queue ?s') = length (queue s)"
    by (rule ids_length[OF processBatch_ids])
  obtain u where at: "queue ?s' ! k =
     (if pending (queue s ! k)
      then outcome conv b64 ai settings (queue s ! k) u ((queue s ! k)\<lparr>status := PROCESSING\<rparr>)
      else queue s ! k)"
    using processBatch_nth[OF assms] by blast
  have err: "(status (queue ?s' ! k) = ERROR) =
       (pending (queue s ! k) \<and> convert conv settings (queue s ! k) = None)"
    unfolding at by (auto simp: outcome_status pending_def)
  have msg: "pending (queue s ! k) \<and> convert conv settings (queue s ! k) = None \<longrightarrow>
       error (queue ?s' ! k) = Some ''Failed''"
    unfolding at by (simp add: outcome_def)
  have ok: "\<forall>b. pending (queue s ! k) \<and> convert conv settings (queue s ! k) = Some b \<longrightarrow>
       status (queue ?s' ! k) = COMPLETE \<and> (\<exists>r. result (queue ?s' ! k) = Some r \<and> blob r = b)"
    unfolding at by (simp add: outcome_def)
  from len err msg ok show ?thesis by blast
qed

text \<open>
  Claim C5. In a queue with pairwise different ids, a selected item whose conversion succeeds
  while \<open>useAIAnalysis\<close> is set and whose annotation fails (the encoding of the source or
  the call of the analysis is rejected) is Complete after the run, with the converted bytes
  and an empty description and no tags.
\<close>

theorem annotation_isolation:
  assumes "distinct (map item_id (queue s))" and "k < length (queue s)"
    and "pending (queue s ! k)"
    and "convert conv settings (queue s ! k) = Some b"
    and "useAIAnalysis settings"
    and "(case b64 (item_file (queue s ! k)) of
            None \<Rightarrow> True
          | Some d \<Rightarrow> ai d (ftype (item_file (queue s ! k))) = None)"
  shows "status (queue (processBatch conv b64 ai settings s) ! k) = COMPLETE \<and>
    (\<exists>u. result (queue (processBatch conv b64 ai settings s) ! k) =
       Some \<lparr>blob = b, url = u, result_size = blob_size b, aiDescription = [], aiTags = []\<rparr>)"
proof -
  let ?s' = "processBatch conv b64 ai settings s"
  obtain u where at: "queue ?s' ! k =
      outcome conv b64 ai settings (queue s ! k) u ((queue s ! k)\<lparr>status := PROCESSING\<rparr>)"
    using processBatch_nth[OF assms(1,2), of conv b64 ai settings] assms(3) by auto
  have ann: "annotate b64 ai settings (queue s ! k) = ([], [])"
    using assms(5,6) by (simp add: annotate_def split: option.splits)
  show ?thesis unfolding at using assms(4) ann by (simp add: outcome_def)
qed

lemma loop_trace_length: "length (loop_trace conv b64 ai settings items s) = length items"
  by (induction items arbitrary: s) (simp_all add: Let_def)

lemma loop_trace_nth:
  "i < length items \<Longrightarrow>
   loop_trace conv b64 ai settings items s ! i
     = fold (process_item conv b64 ai settings) (take (Suc i) items) s"
proof (induction items arbitrary: s i)
  case Nil
  then show ?case by simp
next
  case (Cons x xs)
  then show ?case by (cases i) (simp_all add: Let_def)
qed

lemma processBatch_trace_length:
  "itemsToProcess (queue s) \<noteq> [] \<Longrightarrow>
   length (processBatch_trace conv b64 ai settings s) = Suc (length (itemsToProcess (queue s)))"
  by (simp add: processBatch_trace_def Let_def loop_trace_length)

lemma processBatch_trace_nth:
  "i \<le> length (itemsToProcess (queue s)) \<Longrightarrow> itemsToProcess (queue s) \<noteq> [] \<Longrightarrow>
   processBatch_trace conv b64 ai settings s ! i
     = fold (process_item conv b64 ai settings) (take i (itemsToProcess (queue s)))
         (s\<lparr>queue := markProcessing (itemsToProcess (queue s)) (queue s)\<rparr>)"
  by (cases i) (simp_all add: processBatch_trace_def Let_def loop_trace_nth)

lemma processBatch_trace_last:
  "itemsToProcess (queue s) \<noteq> [] \<Longrightarrow>
   last (processBatch_trace conv b64 ai settings s) = processBatch conv b64 ai settings s"
proof -
  assume ne: "itemsToProcess (queue s) \<noteq> []"
  let ?t = "processBatch_trace conv b64 ai settings s"
  have len: "length ?t = Suc (length (itemsToProcess (queue s)))"
    by (rule processBatch_trace_length[OF ne])
  then have "?t \<noteq> []" by auto
  then have "last ?t = ?t ! (length ?t - 1)" by (rule last_conv_nth)
  also have "\<dots> = ?t ! length (itemsToProcess (queue s))" using len by simp
  also have "\<dots> = processBatch conv b64 ai settings s"
    using processBatch_trace_nth[OF le_refl ne, of conv b64 ai settings] ne
    by (simp add: processBatch_def Let_def)
  finally show ?thesis .
qed

lemma trace_status:
  assumes d: "distinct (map item_id (queue s))"
    and j: "j < length (itemsToProcess (queue s))"
    and k: "k < length (queue s)"
    and kj: "queue s ! k = itemsToProcess (queue s) ! j"
    and i: "i \<le> length (itemsToProcess (queue s))"
  shows "status (queue (processBatch_trace conv b64 ai settings s ! i) ! k) =
      (if j < i
       then (if convert conv settings (itemsToProcess (queue s) ! j) = None then ERROR else COMPLETE)
       else PROCESSING)"
proof -
  let ?q = "queue s"
  let ?sel = "itemsToProcess ?q"
  let ?s0 = "s\<lparr>queue := markProcessing ?sel ?q\<rparr>"
  let ?si = "fold (process_item conv b64 ai settings) (take i ?sel) ?s0"
  have ne: "?sel \<noteq> []" using j by auto
  have ti: "processBatch_trace conv b64 ai settings s ! i = ?si"
    by (rule processBatch_trace_nth[OF i ne])
  have dsel: "distinct (map item_id ?sel)" by (rule itemsToProcess_distinct[OF d])
  have k0: "k < length (queue ?s0)" using k by (simp add: markProcessing_def)
  have pend: "pending (?q ! k)"
    using nth_mem[OF j] kj by (simp add: itemsToProcess_def)
  have at0: "queue ?s0 ! k = (?q ! k)\<lparr>status := PROCESSING\<rparr>"
    using markProcessing_nth[OF d k] pend by simp
  have st: "status (queue ?si ! k) =
      (if j < i then (if convert conv settings (?sel ! j) = None then ERROR else COMPLETE)
       else PROCESSING)"
  proof (cases "j < i")
    case True
    have mem: "?sel ! j \<in> set (take i ?sel)"
      using True j by (metis in_set_conv_nth length_take min_less_iff_conj nth_take)
    have dt: "distinct (map item_id (take i ?sel))"
      using dsel by (simp add: take_map[symmetric] distinct_take)
    have "\<exists>u. queue ?si ! k = outcome conv b64 ai settings (?sel ! j) u (queue ?s0 ! k)"
      using dt mem k0 at0 kj by (intro fold_process_same) auto
    then show ?thesis using True by (auto simp: outcome_status)
  next
    case False
    have "item_id (?sel ! j) \<notin> item_id ` set (take i ?sel)"
    proof
      assume "item_id (?sel ! j) \<in> item_id ` set (take i ?sel)"
      then obtain m where m: "m < i" "m < length ?sel" "item_id (?sel ! m) = item_id (?sel ! j)"
        by (auto simp: in_set_conv_nth)
      then have "map item_id ?sel ! m = map item_id ?sel ! j" using j by simp
      moreover have "m < length (map item_id ?sel)" "j < length (map item_id ?sel)"
        using m(2) j by simp_all
      ultimately have "m = j" using dsel nth_eq_iff_index_eq by blast
      then show False using m(1) False by simp
    qed
    then have "queue ?si ! k = queue ?s0 ! k"
      using k0 at0 kj by (intro fold_process_other) auto
    then show ?thesis using False at0 by simp
  qed
  show ?thesis using st ti by simp
qed

text \<open>
  Claim C3. A run with a non-empty selection of n items performs n + 1 state updates, the
  last of which gives the state the run returns. For the j-th selected item, at position k
  of a queue with pairwise different ids: after the first update (the marking) and as long
  as at most j turns of the loop are done the item is Processing; once the turn j + 1 is
  done it is Complete or Error, as its conversion decides. So all selected items are
  Processing before any of them is resolved, and they resolve one per update in the order
  of the selection.
\<close>

theorem batch_ordering:
  assumes d: "distinct (map item_id (queue s))"
    and j: "j < length (itemsToProcess (queue s))"
    and k: "k < length (queue s)"
    and kj: "queue s ! k = itemsToProcess (queue s) ! j"
    and i: "i \<le> length (itemsToProcess (queue s))"
  shows "length (processBatch_trace conv b64 ai settings s) = Suc (length (itemsToProcess (queue s))) \<and>
    last (processBatch_trace conv b64 ai settings s) = processBatch conv b64 ai settings s \<and>
    status (queue (processBatch_trace conv b64 ai settings s ! i) ! k) =
      (if j < i
       then (if convert conv settings (itemsToProcess (queue s) ! j) = None then ERROR else COMPLETE)
       else PROCESSING)"
proof -
  have ne: "itemsToProcess (queue s) \<noteq> []" using j by auto
  show ?thesis
    using processBatch_trace_length[OF ne] processBatch_trace_last[OF ne]
          trace_status[OF d j k kj i]
    by simp
qed

lemma ex_app_queue:
  "queue ex_app = [ex_item ''a'' (ex_file ''a.png'' [1]) ''blob:'' IDLE None,
                   ex_item ''aa'' (ex_file ''b.png'' []) ''blob:u'' IDLE None,
                   ex_item ''aaa'' (ex_file ''c.png'' [2, 3]) ''blob:uu'' IDLE None]"
  by (simp add: ex_app_def handleFiles_def ex_file_def startsWith_def generateId_def
        createObjectURL_def initial_App_def ex_gen_def object_url_def ex_item_def)

lemma ex_app_distinct: "distinct (map item_id (queue ex_app))"
  by (simp add: ex_app_queue ex_item_def)

lemma ex_app_pending: "pending (queue ex_app ! 0)" "pending (queue ex_app ! 1)" "pending (queue ex_app ! 2)"
  by (simp_all add: ex_app_queue ex_item_def pending_def)

lemma ex_app_convert:
  "convert ex_conv ex_settings (queue ex_app ! 0) = Some [1]"
  "convert ex_conv ex_settings (queue ex_app ! 1) = None"
  "convert ex_conv ex_settings (queue ex_app ! 2) = Some [2, 3]"
  by (simp_all add: ex_app_queue ex_item_def convert_def ex_conv_def ex_file_def)

lemma ex_app_sel: "itemsToProcess (queue ex_app) = queue ex_app"
  by (simp add: ex_app_queue itemsToProcess_def pending_def ex_item_def)

theorem failure_isolation_witness:
  "status (queue (processBatch ex_conv ex_b64 ex_ai ex_settings ex_app) ! 0) = COMPLETE \<and>
   status (queue (processBatch ex_conv ex_b64 ex_ai ex_settings ex_app) ! 1) = ERROR \<and>
   error (queue (processBatch ex_conv ex_b64 ex_ai ex_settings ex_app) ! 1) = Some ''Failed'' \<and>
   status (queue (processBatch ex_conv ex_b64 ex_ai ex_settings ex_app) ! 2) = COMPLETE"
proof -
  have k: "0 < length (queue ex_app)" "1 < length (queue ex_app)" "2 < length (queue ex_app)"
    by (simp_all add: ex_app_queue)
  show ?thesis
    using failure_isolation[OF ex_app_distinct k(1), of ex_conv ex_b64 ex_ai ex_settings]
          failure_isolation[OF ex_app_distinct k(2), of ex_conv ex_b64 ex_ai ex_settings]
          failure_isolation[OF ex_app_distinct k(3), of ex_conv ex_b64 ex_ai ex_settings]
          ex_app_pending ex_app_convert
    by simp
qed

theorem annotation_isolation_witness:
  "status (queue (processBatch ex_conv ex_b64 ex_ai ex_settings ex_app) ! 2) = COMPLETE \<and>
   (\<exists>u. result (queue (processBatch ex_conv ex_b64 ex_ai ex_settings ex_app) ! 2) =
       Some \<lparr>blob = [2, 3], url = u, result_size = blob_size [2, 3],
             aiDescription = [], aiTags = []\<rparr>)"
proof -
  have k: "2 < length (queue ex_app)" by (simp add: ex_app_queue)
  have on: "useAIAnalysis ex_settings" by (simp add: ex_settings_def)
  have fails: "(case ex_b64 (item_file (queue ex_app ! 2)) of
            None \<Rightarrow> True
          | Some d \<Rightarrow> ex_ai d (ftype (item_file (queue ex_app ! 2))) = None)"
    by (simp add: ex_b64_def ex_ai_def)
  show ?thesis
    using annotation_isolation[of ex_app 2 ex_conv ex_settings "[2, 3]" ex_ai ex_b64]
          ex_app_distinct k ex_app_pending(3) ex_app_convert(3) on fails
    by simp
qed

theorem batch_ordering_witness:
  "length (processBatch_trace ex_conv ex_b64 ex_ai ex_settings ex_app) = 4 \<and>
   map (\<lambda>i. map (\<lambda>k. status (queue (processBatch_trace ex_conv ex_b64 ex_ai ex_settings ex_app ! i) ! k))
          [0, 1, 2]) [0, 1, 2, 3]
     = [[PROCESSING, PROCESSING, PROCESSING],
        [COMPLETE, PROCESSING, PROCESSING],
        [COMPLETE, ERROR, PROCESSING],
        [COMPLETE, ERROR, COMPLETE]]"
proof -
  have len: "length (itemsToProcess (queue ex_app)) = 3" "length (queue ex_app) = 3"
    by (simp_all add: ex_app_sel) (simp_all add: ex_app_queue)
  have at: "status (queue (processBatch_trace ex_conv ex_b64 ex_ai ex_settings ex_app ! i) ! k) =
      (if k < i then (if convert ex_conv ex_settings (queue ex_app ! k) = None then ERROR else COMPLETE)
       else PROCESSING)" if "k < 3" "i \<le> 3" for i k
    using batch_ordering[of ex_app k k i ex_conv ex_b64 ex_ai ex_settings] that
    by (simp add: ex_app_distinct len ex_app_sel)
  have "length (processBatch_trace ex_conv ex_b64 ex_ai ex_settings ex_app) = 4"
    using batch_ordering[of ex_app 0 0 0 ex_conv ex_b64 ex_ai ex_settings]
    by (simp add: ex_app_distinct len ex_app_sel)
  then show ?thesis using ex_app_convert by (simp add: at)
qed


lemma upt_shift: "[a..<a + Suc n] = a # [Suc a..<Suc a + n]"
  by (simp add: upt_conv_Cons del: upt_Suc)



lemma process_item_ids_generated:
  "ids_generated (process_item conv b64 ai settings it s) = ids_generated s"
  by (simp add: process_item_def createObjectURL_def split_def Let_def split: option.splits)




lemmas ex_eval =
  run_def initial_App_def handleFiles_def ex_file_def startsWith_def generateId_def
  createObjectURL_def ex_gen_def object_url_def file_size_def
  processBatch_def itemsToProcess_def pending_def markProcessing_def process_item_def
  convert_def ex_conv_def ex_conv_ok_def ex_settings_def markError_def markComplete_def
  annotate_def ex_b64_def ex_ai_def blob_size_def
  removeItem_def revoke_item_def revokeObjectURL_def Let_def


lemma ex_app_ids_generated: "ids_generated ex_app = 3"
  by (simp add: ex_app_def handleFiles_def ex_file_def startsWith_def generateId_def
        createObjectURL_def initial_App_def)

lemma ex_app_ids_ok: "ids_ok ex_gen ex_app"
proof -
  have "{..<(3::nat)} = {0, Suc 0, Suc (Suc 0)}" by auto
  then show ?thesis
    by (simp add: ids_ok_def ex_app_queue ex_item_def ex_app_ids_generated ex_gen_def)
qed

lemma processBatch_ids_generated:
  "ids_generated (processBatch conv b64 ai settings s) = ids_generated s"
proof -
  have "ids_generated (fold (process_item conv b64 ai settings) items t) = ids_generated t" for items t
    by (induction items arbitrary: t) (simp_all add: process_item_ids_generated)
  then show ?thesis by (simp add: processBatch_def Let_def)
qed

lemma processBatch_ids_ok: "ids_ok gen s \<Longrightarrow> ids_ok gen (processBatch conv b64 ai settings s)"
proof -
  assume a: "ids_ok gen s"
  let ?s' = "processBatch conv b64 ai settings s"
  have m: "map item_id (queue ?s') = map item_id (queue s)" by (rule processBatch_ids)
  have "set (map item_id (queue ?s')) = set (map item_id (queue s))" using m by simp
  then have "item_id ` set (queue ?s') = item_id ` set (queue s)" by simp
  then show ?thesis using a m by (simp add: ids_ok_def processBatch_ids_generated)
qed

lemma ex_app2_status:
  "status (queue ex_app2 ! 0) = COMPLETE" "status (queue ex_app2 ! 1) = ERROR"
  "status (queue ex_app2 ! 2) = COMPLETE" "length (queue ex_app2) = 3"
proof -
  have k: "0 < length (queue ex_app)" "1 < length (queue ex_app)" "2 < length (queue ex_app)"
    by (simp_all add: ex_app_queue)
  show "status (queue ex_app2 ! 0) = COMPLETE"
    using processBatch_nth[OF ex_app_distinct k(1), of ex_conv ex_b64 ex_ai ex_settings]
      ex_app_pending(1) ex_app_convert(1)
    by (auto simp: ex_app2_def outcome_status)
  show "status (queue ex_app2 ! 1) = ERROR"
    using processBatch_nth[OF ex_app_distinct k(2), of ex_conv ex_b64 ex_ai ex_settings]
      ex_app_pending(2) ex_app_convert(2)
    by (auto simp: ex_app2_def outcome_status)
  show "status (queue ex_app2 ! 2) = COMPLETE"
    using processBatch_nth[OF ex_app_distinct k(3), of ex_conv ex_b64 ex_ai ex_settings]
      ex_app_pending(3) ex_app_convert(3)
    by (auto simp: ex_app2_def outcome_status)
  show "length (queue ex_app2) = 3"
    using ids_length[OF processBatch_ids[of ex_conv ex_b64 ex_ai ex_settings ex_app]]
    by (simp add: ex_app2_def ex_app_queue)
qed


section \<open>The selection and the run\<close>

text \<open>
  Claim C2. The selection of a run is the sub-list of the queue, in queue order, of the
  items whose status is Idle or Error; no Complete or Processing item is in it. When the
  selection is empty the run returns the state as it is and performs no state update.
  Otherwise, in a queue with pairwise different ids, the first update of the run marks
  exactly the selected items Processing and leaves every other item as it is; the run
  converts exactly the selected items, each ending Complete or Error as its own conversion
  decides, and returns every other item unchanged; and the selected items are resolved one
  per update in the order of the selection.
\<close>

theorem pending_selection:
  "itemsToProcess q = filter (\<lambda>i. status i = IDLE \<or> status i = ERROR) q \<and>
   subseq (itemsToProcess q) q \<and>
   (\<forall>i \<in> set (itemsToProcess q). status i \<noteq> COMPLETE \<and> status i \<noteq> PROCESSING) \<and>
   (itemsToProcess (queue s) = [] \<longrightarrow>
      processBatch conv b64 ai settings s = s \<and> processBatch_trace conv b64 ai settings s = []) \<and>
   (distinct (map item_id (queue s)) \<longrightarrow>
      (itemsToProcess (queue s) \<noteq> [] \<longrightarrow>
         (\<forall>k<length (queue s).
            queue (processBatch_trace conv b64 ai settings s ! 0) ! k =
              (if status (queue s ! k) = IDLE \<or> status (queue s ! k) = ERROR
               then (queue s ! k)\<lparr>status := PROCESSING\<rparr> else queue s ! k))) \<and>
      (\<forall>k<length (queue s).
         (if status (queue s ! k) = IDLE \<or> status (queue s ! k) = ERROR
          then status (queue (processBatch conv b64 ai settings s) ! k) =
                 (if convert conv settings (queue s ! k) = None then ERROR else COMPLETE)
          else queue (processBatch conv b64 ai settings s) ! k = queue s ! k)) \<and>
      (\<forall>j i k. j < length (itemsToProcess (queue s)) \<longrightarrow> i \<le> length (itemsToProcess (queue s)) \<longrightarrow>
         k < length (queue s) \<longrightarrow> queue s ! k = itemsToProcess (queue s) ! j \<longrightarrow>
         status (queue (processBatch_trace conv b64 ai settings s ! i) ! k) =
           (if j < i
            then (if convert conv settings (itemsToProcess (queue s) ! j) = None
                  then ERROR else COMPLETE)
            else PROCESSING)))"
proof -
  have sel: "itemsToProcess q = filter (\<lambda>i. status i = IDLE \<or> status i = ERROR) q"
    unfolding itemsToProcess_def pending_def ..
  have never: "\<forall>i \<in> set (itemsToProcess q). status i \<noteq> COMPLETE \<and> status i \<noteq> PROCESSING"
    unfolding sel by auto
  have noop: "itemsToProcess (queue s) = [] \<longrightarrow>
      processBatch conv b64 ai settings s = s \<and> processBatch_trace conv b64 ai settings s = []"
    by (simp add: processBatch_def processBatch_trace_def)
  have marked: "queue (processBatch_trace conv b64 ai settings s ! 0) ! k =
              (if status (queue s ! k) = IDLE \<or> status (queue s ! k) = ERROR
               then (queue s ! k)\<lparr>status := PROCESSING\<rparr> else queue s ! k)"
    if d: "distinct (map item_id (queue s))" and ne: "itemsToProcess (queue s) \<noteq> []"
      and k: "k < length (queue s)" for k
    using markProcessing_nth[OF d k] ne
    by (simp add: processBatch_trace_def Let_def pending_def)
  have final: "(if status (queue s ! k) = IDLE \<or> status (queue s ! k) = ERROR
          then status (queue (processBatch conv b64 ai settings s) ! k) =
                 (if convert conv settings (queue s ! k) = None then ERROR else COMPLETE)
          else queue (processBatch conv b64 ai settings s) ! k = queue s ! k)"
    if d: "distinct (map item_id (queue s))" and k: "k < length (queue s)" for k
  proof -
    obtain u where at: "queue (processBatch conv b64 ai settings s) ! k =
       (if pending (queue s ! k)
        then outcome conv b64 ai settings (queue s ! k) u ((queue s ! k)\<lparr>status := PROCESSING\<rparr>)
        else queue s ! k)"
      using processBatch_nth[OF d k] by blast
    show ?thesis unfolding at by (simp add: pending_def outcome_status)
  qed
  have order: "status (queue (processBatch_trace conv b64 ai settings s ! i) ! k) =
           (if j < i
            then (if convert conv settings (itemsToProcess (queue s) ! j) = None
                  then ERROR else COMPLETE)
            else PROCESSING)"
    if "distinct (map item_id (queue s))" "j < length (itemsToProcess (queue s))"
      "i \<le> length (itemsToProcess (queue s))" "k < length (queue s)"
      "queue s ! k = itemsToProcess (queue s) ! j" for j i k
    using trace_status[OF that(1,2,4,5,3)] .
  show ?thesis
    using sel itemsToProcess_subseq[of q] never noop marked final order by blast
qed

lemma ex_app2_distinct: "distinct (map item_id (queue ex_app2))"
  using processBatch_ids_ok[OF ex_app_ids_ok, of ex_conv ex_b64 ex_ai ex_settings]
  by (simp add: ex_app2_def ids_ok_def)

theorem pending_selection_witness:
  "itemsToProcess [ex_item ''a'' (ex_file ''a.png'' [1]) ''blob:'' IDLE None,
                   ex_done ''b'' ''b.png'' [7],
                   ex_item ''c'' (ex_file ''c.png'' [2]) ''blob:u'' PROCESSING None,
                   ex_item ''d'' (ex_file ''d.png'' []) ''blob:uu'' ERROR None]
     = [ex_item ''a'' (ex_file ''a.png'' [1]) ''blob:'' IDLE None,
        ex_item ''d'' (ex_file ''d.png'' []) ''blob:uu'' ERROR None] \<and>
   processBatch ex_conv ex_b64 ex_ai ex_settings (initial_App\<lparr>queue := [ex_done ''b'' ''b.png'' [7]]\<rparr>)
     = initial_App\<lparr>queue := [ex_done ''b'' ''b.png'' [7]]\<rparr> \<and>
   queue (processBatch_trace ex_conv_ok ex_b64 ex_ai ex_settings ex_app2 ! 0) ! 1
     = (queue ex_app2 ! 1)\<lparr>status := PROCESSING\<rparr> \<and>
   queue (processBatch_trace ex_conv_ok ex_b64 ex_ai ex_settings ex_app2 ! 0) ! 0 = queue ex_app2 ! 0 \<and>
   status (queue (processBatch ex_conv_ok ex_b64 ex_ai ex_settings ex_app2) ! 1) = COMPLETE \<and>
   queue (processBatch ex_conv_ok ex_b64 ex_ai ex_settings ex_app2) ! 0 = queue ex_app2 ! 0 \<and>
   queue (processBatch ex_conv_ok ex_b64 ex_ai ex_settings ex_app2) ! 2 = queue ex_app2 ! 2"
proof -
  let ?q = "[ex_item ''a'' (ex_file ''a.png'' [1]) ''blob:'' IDLE None,
                   ex_done ''b'' ''b.png'' [7],
                   ex_item ''c'' (ex_file ''c.png'' [2]) ''blob:u'' PROCESSING None,
                   ex_item ''d'' (ex_file ''d.png'' []) ''blob:uu'' ERROR None]"
  let ?s = "initial_App\<lparr>queue := [ex_done ''b'' ''b.png'' [7]]\<rparr>"
  have e: "itemsToProcess (queue ?s) = []"
    by (simp add: itemsToProcess_def pending_def ex_done_def ex_item_def)
  have first: "itemsToProcess ?q = [ex_item ''a'' (ex_file ''a.png'' [1]) ''blob:'' IDLE None,
        ex_item ''d'' (ex_file ''d.png'' []) ''blob:uu'' ERROR None] \<and>
     processBatch ex_conv ex_b64 ex_ai ex_settings ?s = ?s"
    using pending_selection[of ?q ?s ex_conv ex_b64 ex_ai ex_settings] e
    by (simp add: ex_done_def ex_item_def)
  have mem: "queue ex_app2 ! 1 \<in> set (queue ex_app2)"
    by (rule nth_mem) (simp add: ex_app2_status)
  have ne: "itemsToProcess (queue ex_app2) \<noteq> []"
  proof
    assume "itemsToProcess (queue ex_app2) = []"
    then have "\<not> pending (queue ex_app2 ! 1)"
      using mem by (simp add: itemsToProcess_def filter_empty_conv)
    then show False using ex_app2_status(2) by (simp add: pending_def)
  qed
  have c: "convert ex_conv_ok ex_settings (queue ex_app2 ! 1) \<noteq> None"
    by (simp add: convert_def ex_conv_ok_def)
  note T = pending_selection[of "[]" ex_app2 ex_conv_ok ex_b64 ex_ai ex_settings]
  have M: "queue (processBatch_trace ex_conv_ok ex_b64 ex_ai ex_settings ex_app2 ! 0) ! k =
              (if status (queue ex_app2 ! k) = IDLE \<or> status (queue ex_app2 ! k) = ERROR
               then (queue ex_app2 ! k)\<lparr>status := PROCESSING\<rparr> else queue ex_app2 ! k)"
    if "k < 3" for k
    using T ex_app2_distinct ne that by (simp add: ex_app2_status(4))
  have F: "(if status (queue ex_app2 ! k) = IDLE \<or> status (queue ex_app2 ! k) = ERROR
          then status (queue (processBatch ex_conv_ok ex_b64 ex_ai ex_settings ex_app2) ! k) =
                 (if convert ex_conv_ok ex_settings (queue ex_app2 ! k) = None then ERROR else COMPLETE)
          else queue (processBatch ex_conv_ok ex_b64 ex_ai ex_settings ex_app2) ! k = queue ex_app2 ! k)"
    if "k < 3" for k
    using T ex_app2_distinct that by (simp add: ex_app2_status(4))
  have m1: "queue (processBatch_trace ex_conv_ok ex_b64 ex_ai ex_settings ex_app2 ! 0) ! 1
       = (queue ex_app2 ! 1)\<lparr>status := PROCESSING\<rparr>"
    using M[of 1] ex_app2_status(2) by simp
  have m0: "queue (processBatch_trace ex_conv_ok ex_b64 ex_ai ex_settings ex_app2 ! 0) ! 0 = queue ex_app2 ! 0"
    using M[of 0] ex_app2_status(1) by simp
  have f1: "status (queue (processBatch ex_conv_ok ex_b64 ex_ai ex_settings ex_app2) ! 1) = COMPLETE"
    using F[of 1] ex_app2_status(2) c by simp
  have f0: "queue (processBatch ex_conv_ok ex_b64 ex_ai ex_settings ex_app2) ! 0 = queue ex_app2 ! 0"
    using F[of 0] ex_app2_status(1) by simp
  have f2: "queue (processBatch ex_conv_ok ex_b64 ex_ai ex_settings ex_app2) ! 2 = queue ex_app2 ! 2"
    using F[of 2] ex_app2_status(3) by simp
  note second = m1 m0 f1 f0 f2
  from first second show ?thesis by simp
qed

section \<open>Object URLs when a run is not interrupted\<close>

lemma object_url_not_Nil: "object_url n \<noteq> []"
  by (simp add: object_url_def)

lemma handles_updates:
  "handles (i\<lparr>status := a\<rparr>) = handles i"
  "handles (i\<lparr>status := a, error := e\<rparr>) = handles i"
  by (simp_all add: handles_def)

lemma owned_markProcessing: "owned (markProcessing sel q) = owned q"
  by (induction q) (simp_all add: owned_def markProcessing_def handles_updates)

lemma owned_markError: "owned (markError it q) = owned q"
  by (induction q) (simp_all add: owned_def markError_def handles_updates)

lemma markComplete_absent:
  "item_id it \<notin> item_id ` set q \<Longrightarrow> markComplete it r q = q"
  by (induction q) (auto simp: markComplete_def)

lemma owned_markComplete:
  "distinct (map item_id q) \<Longrightarrow> x \<in> set q \<Longrightarrow> item_id x = item_id it \<Longrightarrow> result x = None \<Longrightarrow>
   mset (owned (markComplete it r q)) = mset (owned q) + {#url r#}"
proof (induction q)
  case Nil
  then show ?case by simp
next
  case (Cons y ys)
  show ?case
  proof (cases "item_id y = item_id it")
    case True
    then have "item_id it \<notin> item_id ` set ys" using Cons.prems(1) by auto
    then have tl: "markComplete it r ys = ys" by (rule markComplete_absent)
    have "x = y" using Cons.prems True by (cases "x = y") (auto simp: image_iff)
    then have "result y = None" using Cons.prems(4) by simp
    then have "handles (y\<lparr>status := COMPLETE, result := Some r\<rparr>) = handles y @ [url r]"
      by (simp add: handles_def)
    moreover have "markComplete it r (y # ys) = y\<lparr>status := COMPLETE, result := Some r\<rparr> # ys"
      using True tl by (simp add: markComplete_def)
    ultimately show ?thesis by (simp add: owned_def)
  next
    case False
    then have "x \<in> set ys" using Cons.prems(2,3) by auto
    then have "mset (owned (markComplete it r ys)) = mset (owned ys) + {#url r#}"
      using Cons.prems by (intro Cons.IH) auto
    moreover have "markComplete it r (y # ys) = y # markComplete it r ys"
      using False by (simp add: markComplete_def)
    ultimately show ?thesis by (simp add: owned_def)
  qed
qed

lemma process_item_accounted:
  assumes "accounted s" and "distinct (map item_id (queue s))"
    and "x \<in> set (queue s)" and "item_id x = item_id it" and "result x = None"
  shows "accounted (process_item conv b64 ai settings it s)"
proof (cases "convert conv settings it")
  case None
  then show ?thesis using assms(1)
    by (simp add: process_item_def accounted_def owned_markError)
next
  case (Some b)
  let ?r = "\<lparr>blob = b, url = object_url (urls_created s), result_size = blob_size b,
             aiDescription = fst (annotate b64 ai settings it),
             aiTags = snd (annotate b64 ai settings it)\<rparr>"
  have s': "process_item conv b64 ai settings it s
      = s\<lparr>urls_created := Suc (urls_created s), queue := markComplete it ?r (queue s)\<rparr>"
    using Some by (simp add: process_item_def createObjectURL_def split_def Let_def)
  have "mset (owned (markComplete it ?r (queue s))) = mset (owned (queue s)) + {#object_url (urls_created s)#}"
    using owned_markComplete[OF assms(2-5), of ?r] by simp
  then show ?thesis using assms(1) unfolding s' by (simp add: accounted_def)
qed

lemma fold_process_accounted:
  "accounted s \<Longrightarrow> distinct (map item_id (queue s)) \<Longrightarrow> distinct (map item_id items) \<Longrightarrow>
   (\<forall>it \<in> set items. \<exists>x \<in> set (queue s). item_id x = item_id it \<and> result x = None) \<Longrightarrow>
   accounted (fold (process_item conv b64 ai settings) items s)"
proof (induction items arbitrary: s)
  case Nil
  then show ?case by simp
next
  case (Cons y ys)
  let ?s1 = "process_item conv b64 ai settings y s"
  obtain x where x: "x \<in> set (queue s)" "item_id x = item_id y" "result x = None"
    using Cons.prems(4) by auto
  have a1: "accounted ?s1"
    by (rule process_item_accounted[OF Cons.prems(1,2) x])
  have d1: "distinct (map item_id (queue ?s1))"
    using Cons.prems(2) by (simp add: process_item_ids)
  have rest: "\<forall>it \<in> set ys. \<exists>x \<in> set (queue ?s1). item_id x = item_id it \<and> result x = None"
  proof
    fix it assume it: "it \<in> set ys"
    then obtain z where z: "z \<in> set (queue s)" "item_id z = item_id it" "result z = None"
      using Cons.prems(4) by auto
    have "item_id y \<notin> item_id ` set ys" using Cons.prems(3) by simp
    then have "item_id it \<noteq> item_id y" using it by (metis imageI)
    then have "z \<in> set (queue ?s1)"
      using z(1,2) unfolding process_item_queue by (auto simp: image_iff intro!: bexI[of _ z])
    then show "\<exists>x \<in> set (queue ?s1). item_id x = item_id it \<and> result x = None"
      using z by auto
  qed
  have "accounted (fold (process_item conv b64 ai settings) ys ?s1)"
    using a1 d1 Cons.prems(3) rest by (intro Cons.IH) auto
  then show ?case by simp
qed

lemma item_ok_pending_result: "item_ok i \<Longrightarrow> pending i \<Longrightarrow> result i = None"
  by (auto simp: item_ok_def pending_def)

lemma processBatch_accounted:
  assumes "accounted s" and d: "distinct (map item_id (queue s))"
    and ok: "list_all item_ok (queue s)"
  shows "accounted (processBatch conv b64 ai settings s)"
proof (cases "itemsToProcess (queue s) = []")
  case True
  then show ?thesis using assms(1) by (simp add: processBatch_def)
next
  case False
  let ?sel = "itemsToProcess (queue s)"
  let ?s0 = "s\<lparr>queue := markProcessing ?sel (queue s)\<rparr>"
  have a0: "accounted ?s0" using assms(1) by (simp add: accounted_def owned_markProcessing)
  have d0: "distinct (map item_id (queue ?s0))" using d by (simp add: markProcessing_ids)
  have ex: "\<forall>it \<in> set ?sel. \<exists>x \<in> set (queue ?s0). item_id x = item_id it \<and> result x = None"
  proof
    fix it assume it: "it \<in> set ?sel"
    then have inq: "it \<in> set (queue s)" and p: "pending it" by (auto simp: itemsToProcess_def)
    have r: "result it = None"
      using ok inq p by (auto simp: list_all_iff intro: item_ok_pending_result)
    have "find (\<lambda>i. item_id i = item_id it) ?sel \<noteq> None"
      using it by (auto simp: find_None_iff)
    then have "it\<lparr>status := PROCESSING\<rparr> \<in> set (queue ?s0)"
      using inq by (auto simp: markProcessing_def image_iff intro!: bexI[of _ it])
    then show "\<exists>x \<in> set (queue ?s0). item_id x = item_id it \<and> result x = None"
      using r by (intro bexI[of _ "it\<lparr>status := PROCESSING\<rparr>"]) simp_all
  qed
  have "accounted (fold (process_item conv b64 ai settings) ?sel ?s0)"
    by (rule fold_process_accounted[OF a0 d0 itemsToProcess_distinct[OF d] ex])
  then show ?thesis using False by (simp add: processBatch_def Let_def)
qed

lemma new_items_urls:
  "urls_created (snd (new_items gen fs s)) = urls_created s + length fs \<and>
   urls_revoked (snd (new_items gen fs s)) = urls_revoked s \<and>
   owned (fst (new_items gen fs s)) = map object_url [urls_created s ..< urls_created s + length fs]"
proof (induction fs arbitrary: s)
  case Nil
  then show ?case by (simp add: owned_def)
next
  case (Cons f fs)
  let ?s2 = "snd (createObjectURL (snd (generateId gen s)))"
  have u: "urls_created ?s2 = Suc (urls_created s)" "urls_revoked ?s2 = urls_revoked s"
    by (simp_all add: generateId_def createObjectURL_def)
  have hd: "fst (new_items gen (f # fs) s)
      = \<lparr>item_id = gen (ids_generated s), item_file = f,
           previewUrl = object_url (urls_created s),
           originalSize = file_size f, status = IDLE, result = None, error = None\<rparr>
        # fst (new_items gen fs ?s2)"
    by (simp add: split_def Let_def generateId_def createObjectURL_def)
  have sn: "snd (new_items gen (f # fs) s) = snd (new_items gen fs ?s2)"
    by (simp add: split_def Let_def)
  have "owned (fst (new_items gen (f # fs) s))
      = object_url (urls_created s) # map object_url [Suc (urls_created s) ..< Suc (urls_created s) + length fs]"
    unfolding hd using Cons[of ?s2] u by (simp add: owned_def handles_def)
  also have "\<dots> = map object_url [urls_created s ..< urls_created s + Suc (length fs)]"
    unfolding upt_shift by simp
  finally show ?case unfolding sn using Cons[of ?s2] u by simp
qed

lemma handleFiles_accounted: "accounted s \<Longrightarrow> accounted (handleFiles gen files s)"
proof (cases files)
  case None
  then show "accounted s \<Longrightarrow> ?thesis" by (simp add: handleFiles_def)
next
  case (Some fs)
  assume a: "accounted s"
  let ?imgs = "filter (\<lambda>f. startsWith (ftype f) ''image/'') fs"
  let ?p = "new_items gen ?imgs s"
  have s': "handleFiles gen files s = (snd ?p)\<lparr>queue := queue s @ fst ?p\<rparr>"
    using Some by (simp add: handleFiles_def split_def Let_def new_items_queue)
  define a where "a = urls_created s"
  define n where "n = length ?imgs"
  have u: "urls_created (snd ?p) = a + n" "urls_revoked (snd ?p) = urls_revoked s"
      "owned (fst ?p) = map object_url [a..<a + n]"
    using new_items_urls[of gen ?imgs s] by (simp_all add: a_def n_def)
  have "[0..<a + n] = [0..<a] @ [a..<a + n]"
    by (rule upt_add_eq_append) simp
  then have "map object_url [0..<a + n] = map object_url [0..<a] @ map object_url [a..<a + n]"
    by (simp only: map_append)
  then have sp: "mset (map object_url [0..<a + n])
      = mset (map object_url [0..<a]) + mset (map object_url [a..<a + n])"
    by (simp only: mset_append)
  have old: "mset (urls_revoked s) + mset (owned (queue s)) = mset (map object_url [0..<a])"
    using a by (simp only: accounted_def a_def)
  have ow: "owned (queue s @ fst ?p) = owned (queue s) @ owned (fst ?p)"
    by (simp add: owned_def)
  have "mset (urls_revoked s) + mset (owned (queue s @ fst ?p)) = mset (map object_url [0..<a + n])"
    unfolding ow u(3) sp old[symmetric] by (simp only: mset_append ac_simps)
  then show ?thesis
    unfolding s' accounted_def using u(1,2) by simp
qed

lemma owned_not_Nil: "accounted s \<Longrightarrow> u \<in> set (owned (queue s)) \<Longrightarrow> u \<noteq> []"
proof -
  assume a: "accounted s" and u: "u \<in> set (owned (queue s))"
  have "set_mset (mset (urls_revoked s) + mset (owned (queue s)))
      = set_mset (mset (map object_url [0..<urls_created s]))"
    using a by (simp only: accounted_def)
  then have "set (urls_revoked s) \<union> set (owned (queue s)) = object_url ` set [0..<urls_created s]"
    by (simp only: set_mset_union set_mset_mset set_map)
  then have "u \<in> object_url ` set [0..<urls_created s]" using u by blast
  then show ?thesis by (auto simp: object_url_not_Nil)
qed

lemma revoke_item_eq:
  "\<forall>u \<in> set (handles item). u \<noteq> [] \<Longrightarrow>
   revoke_item item s = s\<lparr>urls_revoked := urls_revoked s @ handles item\<rparr>"
  by (cases "result item") (simp_all add: revoke_item_def revokeObjectURL_def handles_def)

lemma handles_in_owned: "x \<in> set q \<Longrightarrow> set (handles x) \<subseteq> set (owned q)"
  by (auto simp: owned_def)

lemma find_unique:
  "distinct (map item_id q) \<Longrightarrow> x \<in> set q \<Longrightarrow> find (\<lambda>it. item_id it = item_id x) q = Some x"
proof (induction q)
  case Nil
  then show ?case by simp
next
  case (Cons y ys)
  then show ?case by (cases "x = y") (auto simp: image_iff)
qed

lemma owned_filter_out:
  "distinct (map item_id q) \<Longrightarrow> x \<in> set q \<Longrightarrow>
   mset (owned q) = mset (handles x) + mset (owned (filter (\<lambda>it. item_id it \<noteq> item_id x) q))"
proof (induction q)
  case Nil
  then show ?case by simp
next
  case (Cons y ys)
  show ?case
  proof (cases "x = y")
    case True
    then have "item_id x \<notin> item_id ` set ys" using Cons.prems(1) by simp
    then have "filter (\<lambda>it. item_id it \<noteq> item_id x) ys = ys"
      by (intro filter_True) (metis imageI)
    then show ?thesis using True by (simp add: owned_def)
  next
    case False
    then have mem: "x \<in> set ys" using Cons.prems(2) by simp
    have "item_id y \<notin> item_id ` set ys" using Cons.prems(1) by simp
    then have ne: "item_id y \<noteq> item_id x" using mem by (metis imageI)
    have "mset (owned ys) = mset (handles x) + mset (owned (filter (\<lambda>it. item_id it \<noteq> item_id x) ys))"
      using Cons.prems(1) mem by (intro Cons.IH) simp_all
    then show ?thesis using ne by (simp add: owned_def)
  qed
qed

lemma removeItem_absent: "i \<notin> item_id ` set (queue s) \<Longrightarrow> removeItem i s = s"
proof -
  assume a: "i \<notin> item_id ` set (queue s)"
  then have f: "find (\<lambda>it. item_id it = i) (queue s) = None"
    by (auto simp: find_None_iff)
  have "filter (\<lambda>it. item_id it \<noteq> i) (queue s) = queue s"
    using a by (intro filter_True) (metis imageI)
  then show ?thesis using f by (simp add: removeItem_def)
qed

lemma revoke_item_queue: "queue (revoke_item item s) = queue s"
  by (simp add: revoke_item_def revokeObjectURL_def split: option.splits)

lemma removeItem_queue: "queue (removeItem i s) = filter (\<lambda>it. item_id it \<noteq> i) (queue s)"
  by (simp add: removeItem_def revoke_item_queue split: option.splits)

lemma removeItem_idem: "removeItem i (removeItem i s) = removeItem i s"
  by (rule removeItem_absent) (auto simp: removeItem_queue)

lemma removeItem_present:
  assumes "accounted s" and "distinct (map item_id (queue s))" and "x \<in> set (queue s)"
  shows "removeItem (item_id x) s
     = s\<lparr>urls_revoked := urls_revoked s @ handles x,
          queue := filter (\<lambda>it. item_id it \<noteq> item_id x) (queue s)\<rparr>"
proof -
  have ne: "\<forall>u \<in> set (handles x). u \<noteq> []"
    using owned_not_Nil[OF assms(1)] handles_in_owned[OF assms(3)] by blast
  show ?thesis
    using find_unique[OF assms(2,3)] revoke_item_eq[OF ne, of s]
    by (simp add: removeItem_def)
qed

lemma removeItem_accounted:
  assumes "accounted s" and "distinct (map item_id (queue s))"
  shows "accounted (removeItem i s)"
proof (cases "i \<in> item_id ` set (queue s)")
  case False
  then show ?thesis using assms(1) by (simp add: removeItem_absent)
next
  case True
  then obtain x where x: "x \<in> set (queue s)" "i = item_id x" by auto
  show ?thesis
    using assms(1) owned_filter_out[OF assms(2) x(1)]
    unfolding x(2) removeItem_present[OF assms x(1)]
    by (simp add: accounted_def ac_simps)
qed

lemma fold_revoke_item:
  "\<forall>u \<in> set (owned q). u \<noteq> [] \<Longrightarrow>
   fold revoke_item q s = s\<lparr>urls_revoked := urls_revoked s @ owned q\<rparr>"
proof (induction q arbitrary: s)
  case Nil
  then show ?case by (simp add: owned_def)
next
  case (Cons y ys)
  have ne: "\<forall>u \<in> set (handles y). u \<noteq> []" using Cons.prems by (simp add: owned_def)
  have "\<forall>u \<in> set (owned ys). u \<noteq> []" using Cons.prems by (simp add: owned_def)
  then show ?case using Cons.IH revoke_item_eq[OF ne] by (simp add: owned_def)
qed

lemma clearQueue_eq:
  "accounted s \<Longrightarrow> clearQueue s = s\<lparr>urls_revoked := urls_revoked s @ owned (queue s), queue := []\<rparr>"
  using fold_revoke_item[of "queue s" s] owned_not_Nil[of s]
  by (simp add: clearQueue_def)

lemma clearQueue_accounted: "accounted s \<Longrightarrow> accounted (clearQueue s)"
proof -
  assume a: "accounted s"
  then show ?thesis unfolding clearQueue_eq[OF a] by (simp add: accounted_def owned_def)
qed








lemma clearQueue_items_ok: "list_all item_ok (queue (clearQueue s))"
  by (simp add: clearQueue_def)


lemma item_ok_outcome:
  "item_ok i \<Longrightarrow> pending i \<Longrightarrow>
   item_ok (outcome conv b64 ai settings it u (i\<lparr>status := PROCESSING\<rparr>))"
  by (auto simp: item_ok_def pending_def outcome_def split: option.splits)

lemma prefix_nth_cases:
  assumes d: "distinct (map item_id (queue s))" and k: "k < length (queue s)"
  shows "\<exists>u. queue (fold (process_item conv b64 ai settings) (take i (itemsToProcess (queue s)))
                 (s\<lparr>queue := markProcessing (itemsToProcess (queue s)) (queue s)\<rparr>)) ! k
     \<in> (if pending (queue s ! k)
         then {(queue s ! k)\<lparr>status := PROCESSING\<rparr>,
               outcome conv b64 ai settings (queue s ! k) u ((queue s ! k)\<lparr>status := PROCESSING\<rparr>)}
         else {queue s ! k})"
proof -
  let ?q = "queue s"
  let ?sel = "itemsToProcess ?q"
  let ?s0 = "s\<lparr>queue := markProcessing ?sel ?q\<rparr>"
  let ?pre = "take i ?sel"
  let ?si = "fold (process_item conv b64 ai settings) ?pre ?s0"
  have in_q: "?q ! k \<in> set ?q" using k by simp
  have k0: "k < length (queue ?s0)" using k by (simp add: markProcessing_def)
  have at0: "queue ?s0 ! k = (if pending (?q ! k) then (?q ! k)\<lparr>status := PROCESSING\<rparr> else ?q ! k)"
    using markProcessing_nth[OF d k] by simp
  have id0: "item_id (queue ?s0 ! k) = item_id (?q ! k)" using at0 by simp
  have pre_sub: "set ?pre \<subseteq> set ?sel" by (rule set_take_subset)
  have sel_sub: "set ?sel \<subseteq> set ?q" by (auto simp: itemsToProcess_def)
  have dpre: "distinct (map item_id ?pre)"
    using itemsToProcess_distinct[OF d] by (simp add: take_map[symmetric] distinct_take)
  show ?thesis
  proof (cases "?q ! k \<in> set ?pre")
    case True
    then have p: "pending (?q ! k)" using pre_sub by (auto simp: itemsToProcess_def)
    have "\<exists>u. queue ?si ! k = outcome conv b64 ai settings (?q ! k) u (queue ?s0 ! k)"
      using dpre True k0 id0 by (intro fold_process_same) auto
    then show ?thesis using p at0 by auto
  next
    case False
    have "item_id (queue ?s0 ! k) \<notin> item_id ` set ?pre"
    proof
      assume "item_id (queue ?s0 ! k) \<in> item_id ` set ?pre"
      then obtain it where it: "it \<in> set ?pre" "item_id it = item_id (?q ! k)"
        using id0 by auto
      then have "it \<in> set ?q" using pre_sub sel_sub by blast
      then have "it = ?q ! k" using same_id_same_item[OF d _ in_q it(2)] by simp
      then show False using it(1) False by simp
    qed
    then have "queue ?si ! k = queue ?s0 ! k" using k0 by (intro fold_process_other)
    then show ?thesis using at0 by auto
  qed
qed

section \<open>Sessions: runs interleaved with the other actions\<close>















lemma resume_all:
  "n < length rs \<Longrightarrow> remaining (rs ! n) = items \<Longrightarrow>
   fst (fold (step gen) (replicate (length items) (Resume n)) (s, rs))
     = fold (process_item (run_conv (rs ! n)) (run_b64 (rs ! n)) (run_ai (rs ! n))
              (run_settings (rs ! n))) items s"
proof (induction items arbitrary: s rs)
  case Nil
  then show ?case by simp
next
  case (Cons it items)
  let ?rs' = "rs[n := (rs ! n)\<lparr>remaining := items\<rparr>]"
  let ?s' = "process_item (run_conv (rs ! n)) (run_b64 (rs ! n)) (run_ai (rs ! n))
              (run_settings (rs ! n)) it s"
  have st: "step gen (Resume n) (s, rs) = (?s', ?rs')" using Cons.prems by simp
  have n': "n < length ?rs'" using Cons.prems(1) by simp
  have r': "remaining (?rs' ! n) = items" using Cons.prems(1) by simp
  have same: "run_conv (?rs' ! n) = run_conv (rs ! n)" "run_b64 (?rs' ! n) = run_b64 (rs ! n)"
      "run_ai (?rs' ! n) = run_ai (rs ! n)" "run_settings (?rs' ! n) = run_settings (rs ! n)"
    using Cons.prems(1) by simp_all
  show ?case using Cons.IH[OF n' r', of ?s'] st same by simp
qed

lemma run_to_completion:
  "fst (fold (step gen)
      (ProcessBatch conv b64 ai settings
         # replicate (length (itemsToProcess (queue s))) (Resume (length rs))) (s, rs))
     = processBatch conv b64 ai settings s"
proof (cases "itemsToProcess (queue s) = []")
  case True
  then show ?thesis by (simp add: processBatch_def)
next
  case False
  let ?sel = "itemsToProcess (queue s)"
  let ?r = "\<lparr>run_conv = conv, run_b64 = b64, run_ai = ai, run_settings = settings,
             remaining = ?sel\<rparr>"
  let ?s0 = "s\<lparr>queue := markProcessing ?sel (queue s)\<rparr>"
  have st: "step gen (ProcessBatch conv b64 ai settings) (s, rs) = (?s0, rs @ [?r])"
    using False by (simp add: Let_def)
  have "fst (fold (step gen) (replicate (length ?sel) (Resume (length rs))) (?s0, rs @ [?r]))
      = fold (process_item conv b64 ai settings) ?sel ?s0"
    using resume_all[of "length rs" "rs @ [?r]" ?sel gen ?s0] by simp
  then show ?thesis using False st by (simp add: processBatch_def Let_def)
qed

text \<open>
  Without interruption the events of a run add up to \<open>processBatch\<close>, and then the object
  URLs stay accounted for.
\<close>

lemma uninterrupted_accounted:
  assumes "accounted s" and "distinct (map item_id (queue s))" and "list_all item_ok (queue s)"
  shows "accounted (fst (fold (step gen)
      (ProcessBatch conv b64 ai settings
         # replicate (length (itemsToProcess (queue s))) (Resume (length rs))) (s, rs)))"
  unfolding run_to_completion by (rule processBatch_accounted[OF assms])




lemmas ex_session_eval =
  ex_failed_def ex_retrying_def ex_retry_def ex_removed_during_run_def clearQueue_def






text \<open>
  Claim C6 at a removal during a run. A file is dropped (its preview URL is the first URL
  created), a run is started, the item is removed while its conversion is awaited (the
  preview URL is revoked), and the conversion succeeds: the turn creates the URL of the
  output, the second URL created, and its state update finds no item to store it in. After
  the queue is cleared no item is left, two URLs have been created for the removed item and
  one has been revoked: the URL of the output is neither owned nor revoked.
\<close>

theorem resource_release_leak:
  "queue (fst (run ex_gen ex_removed_during_run)) = [] \<and>
   urls_created (fst (run ex_gen ex_removed_during_run)) = 2 \<and>
   urls_revoked (fst (run ex_gen ex_removed_during_run)) = [''blob:''] \<and>
   owned (queue (fst (run ex_gen ex_removed_during_run))) = [] \<and>
   object_url 1 \<notin> set (urls_revoked (fst (run ex_gen ex_removed_during_run)))"
  by (simp add: ex_session_eval ex_eval owned_def)

end
